theory Spec2Isabelle
  imports Main
begin

section \<open>Characters and strings\<close>

text \<open>
  A Python \<open>str\<close> is a sequence of code points, and \<open>len\<close> counts code points. The texts
  of this development are sequences of the code points 0 to 255: a \<open>char\<close> stands for the
  code point of the same number. On these code points the classifications of Python 3
  are written out in full: \<open>str.isspace\<close> and the pattern \<open>\s\<close> hold of the same twelve
  code points, \<open>\d\<close> holds of the ten ASCII digits, and \<open>str.lower\<close> maps a code point to
  a single code point below 256, whatever stands around it. Beyond these code points
  \<open>str.lower\<close> depends on the context and is not part of this development.
\<close>

definition code_point :: "char \<Rightarrow> nat" where
  "code_point c = of_char c"

definition isspace :: "char \<Rightarrow> bool" where
  "isspace c =
     (let n = code_point c
      in (9 \<le> n \<and> n \<le> 13) \<or> (28 \<le> n \<and> n \<le> 32) \<or> n = 133 \<or> n = 160)"

definition isdecimal :: "char \<Rightarrow> bool" where
  "isdecimal c = (let n = code_point c in 48 \<le> n \<and> n \<le> 57)"

definition lower_char :: "char \<Rightarrow> char" where
  "lower_char c =
     (let n = code_point c
      in if (65 \<le> n \<and> n \<le> 90) \<or> (192 \<le> n \<and> n \<le> 222 \<and> n \<noteq> 215)
         then char_of (n + 32) else c)"

definition lower :: "string \<Rightarrow> string" where
  "lower s = map lower_char s"

definition strip :: "string \<Rightarrow> string" where
  "strip s = rev (dropWhile isspace (rev (dropWhile isspace s)))"

fun str_join :: "string \<Rightarrow> string list \<Rightarrow> string" where
  "str_join sep [] = []"
| "str_join sep [x] = x"
| "str_join sep (x # y # ys) = x @ sep @ str_join sep (y # ys)"


section \<open>The regular expressions of the program\<close>

text \<open>
  Both patterns of \<open>split_into_questions\<close> are sequences of single-character items, each
  with at most one greedy quantifier. The matcher is the backtracking one of Python's
  \<open>re\<close>: \<open>matches r s\<close> lists, in the order in which the engine tries them, what is left
  of \<open>s\<close> after each way of matching \<open>r\<close> at the start of \<open>s\<close>. A greedy quantifier tries
  the longer repetition first.
\<close>

datatype cclass = Lit char | Space | Digit | OneOf "char list"

fun in_class :: "cclass \<Rightarrow> char \<Rightarrow> bool" where
  "in_class (Lit a) c = (c = a)"
| "in_class Space c = isspace c"
| "in_class Digit c = isdecimal c"
| "in_class (OneOf as) c = (c \<in> set as)"

datatype quant = Once | Opt | Star | Plus

type_synonym regex = "(cclass \<times> quant) list"

fun matches :: "regex \<Rightarrow> string \<Rightarrow> string list" where
  "matches [] s = [s]"
| "matches ((k, Once) # r) [] = []"
| "matches ((k, Once) # r) (c # cs) = (if in_class k c then matches r cs else [])"
| "matches ((k, Opt) # r) [] = matches r []"
| "matches ((k, Opt) # r) (c # cs) =
     (if in_class k c then matches r cs @ matches r (c # cs) else matches r (c # cs))"
| "matches ((k, Star) # r) [] = matches r []"
| "matches ((k, Star) # r) (c # cs) =
     (if in_class k c then matches ((k, Star) # r) cs @ matches r (c # cs)
      else matches r (c # cs))"
| "matches ((k, Plus) # r) [] = []"
| "matches ((k, Plus) # r) (c # cs) =
     (if in_class k c then matches ((k, Star) # r) cs else [])"

text \<open>
  One attempt of the engine at one position: the first way of matching, and, when the
  previous match was empty and ended here (\<open>must_advance\<close>), the first way that consumes
  at least one character.
\<close>

definition first_match :: "bool \<Rightarrow> regex \<Rightarrow> string \<Rightarrow> string option" where
  "first_match must_advance r s =
     find (\<lambda>t. \<not> must_advance \<or> length t < length s) (matches r s)"

text \<open>
  The search tries each start position from left to right and drops \<open>must_advance\<close>
  after the first attempt. It returns the text skipped before the match and the text
  left after it.
\<close>

fun re_search :: "bool \<Rightarrow> regex \<Rightarrow> string \<Rightarrow> (string \<times> string) option" where
  "re_search must_advance r s =
     (case first_match must_advance r s of
        Some t \<Rightarrow> Some ([], t)
      | None \<Rightarrow>
         (case s of
            [] \<Rightarrow> None
          | c # cs \<Rightarrow>
             (case re_search False r cs of
                None \<Rightarrow> None
              | Some (skipped, t) \<Rightarrow> Some (c # skipped, t))))"

lemma matches_length: "t \<in> set (matches r s) \<Longrightarrow> length t \<le> length s"
  by (induction r s arbitrary: t rule: matches.induct) (fastforce split: if_splits)+

lemma first_match_length:
  assumes "first_match adv r s = Some t"
  shows "length t \<le> length s" and "adv \<Longrightarrow> length t < length s"
proof -
  from assms have "t \<in> set (matches r s)"
    and "\<not> adv \<or> length t < length s"
    by (auto simp: first_match_def find_Some_iff)
  then show "length t \<le> length s" and "adv \<Longrightarrow> length t < length s"
    by (auto dest: matches_length)
qed

lemma re_search_length:
  "re_search adv r s = Some (seg, t) \<Longrightarrow>
     length seg + length t \<le> length s \<and> (adv \<longrightarrow> length t < length s)"
proof (induction s arbitrary: adv seg t)
  case Nil
  then show ?case
    by (auto split: option.splits dest: first_match_length)
next
  case (Cons c cs)
  show ?case
  proof (cases "first_match adv r (c # cs)")
    case (Some u)
    with Cons.prems have "seg = []" "t = u" by auto
    with Some show ?thesis
      using first_match_length [of adv r "c # cs" u] by auto
  next
    case None
    with Cons.prems obtain sk where sk: "re_search False r cs = Some (sk, t)" "seg = c # sk"
      by (auto split: option.splits)
    from Cons.IH [OF sk(1)] sk(2) show ?thesis by auto
  qed
qed

declare re_search.simps [simp del]

text \<open>
  The loop shared by \<open>re.split\<close> and \<open>re.sub\<close>: the segments between successive
  matches. After an empty match the next search must advance.
\<close>

function re_split_from :: "bool \<Rightarrow> regex \<Rightarrow> string \<Rightarrow> string list" where
  "re_split_from must_advance r s =
     (case re_search must_advance r s of
        None \<Rightarrow> [s]
      | Some (seg, t) \<Rightarrow> seg # re_split_from (length seg + length t = length s) r t)"
  by pat_completeness auto
termination
proof (relation "measure (\<lambda>(adv, r, s). 2 * length s + (if adv then 0 else 1))", goal_cases)
  case 1
  show ?case by simp
next
  case (2 must_advance r s x2 seg t)
  then have "re_search must_advance r s = Some (seg, t)" by simp
  from re_search_length [OF this] show ?case by auto
qed

declare re_split_from.simps [simp del]

definition re_split :: "regex \<Rightarrow> string \<Rightarrow> string list" where
  "re_split r s = re_split_from False r s"

text \<open>\<open>re.sub\<close> with a literal replacement puts it between the segments.\<close>

definition re_sub :: "regex \<Rightarrow> string \<Rightarrow> string \<Rightarrow> string" where
  "re_sub r repl s = str_join repl (re_split r s)"


section \<open>The question segmenter\<close>

definition CR :: char where
  "CR = CHR 0x0D"

definition LF :: char where
  "LF = CHR 0x0A"

text \<open>The pattern \<^verbatim>\<open>\n?\s*\d+[\).\]]\s+\<close>.\<close>

definition pattern :: regex where
  "pattern = [(Lit LF, Opt), (Space, Star), (Digit, Plus),
              (OneOf [CHR '')'', CHR ''.'', CHR '']''], Once), (Space, Plus)]"

text \<open>The last three and the last two items of the pattern.\<close>

definition tail3 :: regex where
  "tail3 = [(Digit, Plus), (OneOf [CHR '')'', CHR ''.'', CHR '']''], Once), (Space, Plus)]"

definition tail2 :: regex where
  "tail2 = [(OneOf [CHR '')'', CHR ''.'', CHR '']''], Once), (Space, Plus)]"

text \<open>The loop over \<open>parts[1:]\<close>, with \<open>questions\<close> as the list built so far.\<close>

fun collect_questions :: "string list \<Rightarrow> string list \<Rightarrow> string list" where
  "collect_questions questions [] = questions"
| "collect_questions questions (q # parts) =
     (let q_clean = strip q
      in if length q_clean > 15 then collect_questions (questions @ [q_clean]) parts
         else collect_questions questions parts)"

definition split_into_questions :: "string \<Rightarrow> string list" where
  "split_into_questions text =
     (let text = re_sub [(Lit CR, Once)] [] text;
          parts = re_split pattern text
      in collect_questions [] (drop 1 parts))"


section \<open>Repeat detection\<close>

datatype error = StopIteration | ServiceError

text \<open>
  A \<open>Counter\<close> is a dictionary, which keeps its keys in the order of their first
  insertion: an association list. Counting an element adds one to its entry where it
  is, or appends a new entry with count one.
\<close>

type_synonym counter = "(string \<times> nat) list"

fun count_element :: "string \<Rightarrow> counter \<Rightarrow> counter" where
  "count_element x [] = [(x, 1)]"
| "count_element x ((k, c) # kcs) =
     (if k = x then (k, c + 1) # kcs else (k, c) # count_element x kcs)"

definition Counter :: "string list \<Rightarrow> counter" where
  "Counter xs = fold count_element xs []"

definition normalized :: "string list \<Rightarrow> string list" where
  "normalized all_questions = map (\<lambda>q. strip (lower q)) all_questions"

definition counts :: "string list \<Rightarrow> counter" where
  "counts all_questions = Counter (normalized all_questions)"

definition repeated :: "string list \<Rightarrow> (string \<times> nat) list" where
  "repeated all_questions = filter (\<lambda>(q, c). c > 1) (counts all_questions)"

text \<open>\<open>next\<close> over a generator with no default raises \<open>StopIteration\<close> when it is exhausted.\<close>

definition next_where :: "(string \<Rightarrow> bool) \<Rightarrow> string list \<Rightarrow> error + string" where
  "next_where cond qs = (case find cond qs of None \<Rightarrow> Inl StopIteration | Some q \<Rightarrow> Inr q)"

fun map_back :: "string list \<Rightarrow> (string \<times> nat) list \<Rightarrow> (string \<times> nat) list
                  \<Rightarrow> error + (string \<times> nat) list" where
  "map_back all_questions repeated_readable [] = Inr repeated_readable"
| "map_back all_questions repeated_readable ((q_norm, c) # rest) =
     (case next_where (\<lambda>q. strip (lower q) = q_norm) all_questions of
        Inl e \<Rightarrow> Inl e
      | Inr orig \<Rightarrow> map_back all_questions (repeated_readable @ [(orig, c)]) rest)"

definition repeated_readable :: "string list \<Rightarrow> error + (string \<times> nat) list" where
  "repeated_readable all_questions = map_back all_questions [] (repeated all_questions)"

text \<open>
  \<open>sorted(xs, key=lambda x: x[1], reverse=True)\<close>: the sort is stable, and with
  \<open>reverse=True\<close> elements with equal keys keep their original order.
\<close>

definition sorted_by_count_desc :: "(string \<times> nat) list \<Rightarrow> (string \<times> nat) list" where
  "sorted_by_count_desc xs = rev (sort_key snd (rev xs))"

definition joined_questions :: "string list \<Rightarrow> string" where
  "joined_questions all_questions = str_join [LF] (take 50 all_questions)"


section \<open>The script\<close>

text \<open>
  An uploaded PDF is the list of what \<open>extract_text\<close> returns for its pages. A prompt is
  one of the two fixed templates with the text put into it. The language model is a
  parameter: it returns the content of the completion or fails.
\<close>

type_synonym pdf = "string option list"

datatype prompt = Syllabus_prompt string | Pattern_prompt string

fun extract_pages :: "string \<Rightarrow> pdf \<Rightarrow> string" where
  "extract_pages text [] = text"
| "extract_pages text (page_text # pages) =
     (case page_text of
        None \<Rightarrow> extract_pages text pages
      | Some t \<Rightarrow> if t \<noteq> [] then extract_pages (text @ t @ [LF]) pages
                  else extract_pages text pages)"

definition extract_text_from_pdf :: "pdf \<Rightarrow> string" where
  "extract_text_from_pdf uploaded_file = extract_pages [] uploaded_file"

definition call_llm :: "(prompt \<Rightarrow> error + string) \<Rightarrow> prompt \<Rightarrow> error + string" where
  "call_llm llm p = (case llm p of Inl e \<Rightarrow> Inl e | Inr content \<Rightarrow> Inr (strip content))"

text \<open>
  What one run of the script does, in order: what it shows, the prompts it sends to the
  language model, a call of \<open>st.stop\<close>, an uncaught exception.
\<close>

datatype event =
    St_error string
  | St_stop
  | Page_header
  | File_uploader_papers
  | File_uploader_syllabus
  | Success_syllabus
  | Button_syllabus
  | Llm_call prompt
  | Syllabus_insights string
  | Success_papers nat
  | Button_papers
  | Total_questions nat
  | Repeated_header
  | Repeated_line nat string
  | Info_no_repeats
  | Pattern_insights string
  | Tip
  | Uncaught error

record inputs =
  OPENAI_API_KEY :: "string option"
  question_papers :: "pdf list"
  syllabus_file :: "pdf option"
  syllabus_clicked :: bool
  papers_clicked :: bool

text \<open>
  A part of the script gives its events and whether it ended the run, by \<open>st.stop\<close> or
  by an exception; what follows it in the script runs only when it did not.
\<close>

type_synonym run = "event list \<times> bool"

definition and_then :: "run \<Rightarrow> run \<Rightarrow> run" where
  "and_then a b = (if snd a then a else (fst a @ fst b, snd b))"

definition display :: "event list \<Rightarrow> run" where
  "display es = (es, False)"

definition raise :: "error \<Rightarrow> run" where
  "raise e = ([Uncaught e], True)"

definition st_stop :: run where
  "st_stop = ([St_stop], True)"

definition ask :: "(prompt \<Rightarrow> error + string) \<Rightarrow> prompt \<Rightarrow> (string \<Rightarrow> run) \<Rightarrow> run" where
  "ask llm p continue =
     and_then (display [Llm_call p])
       (case call_llm llm p of Inl e \<Rightarrow> raise e | Inr answer \<Rightarrow> continue answer)"

definition key_missing_message :: string where
  "key_missing_message = ''OPENAI_API_KEY is not set. Please add it to your .env file.''"

text \<open>\<open>not OPENAI_API_KEY\<close> holds of \<open>None\<close> and of the empty string.\<close>

definition check_key :: "inputs \<Rightarrow> run" where
  "check_key inp =
     (if OPENAI_API_KEY inp = None \<or> OPENAI_API_KEY inp = Some []
      then and_then (display [St_error key_missing_message]) st_stop
      else display [])"

definition file_uploads :: run where
  "file_uploads = display [Page_header, File_uploader_papers, File_uploader_syllabus]"

definition syllabus_analysis :: "(prompt \<Rightarrow> error + string) \<Rightarrow> inputs \<Rightarrow> run" where
  "syllabus_analysis llm inp =
     (case syllabus_file inp of
        None \<Rightarrow> display []
      | Some f \<Rightarrow>
          and_then (display [Success_syllabus, Button_syllabus])
            (if syllabus_clicked inp
             then ask llm (Syllabus_prompt (extract_text_from_pdf f))
                    (\<lambda>syllabus_output. display [Syllabus_insights syllabus_output])
             else display []))"

definition all_questions_of :: "pdf list \<Rightarrow> string list" where
  "all_questions_of qps =
     concat (map (\<lambda>qp. split_into_questions (extract_text_from_pdf qp)) qps)"

definition no_questions_message :: string where
  "no_questions_message =
     ''Could not find questions. Check if the PDFs are scanned images instead of text.''"

definition show_results :: "(prompt \<Rightarrow> error + string) \<Rightarrow> string list
                              \<Rightarrow> (string \<times> nat) list \<Rightarrow> run" where
  "show_results llm all_questions rr =
     and_then (display [Total_questions (length all_questions)])
    (and_then (if rr \<noteq> []
               then display (Repeated_header #
                      map (\<lambda>(q, c). Repeated_line c q) (sorted_by_count_desc rr))
               else display [Info_no_repeats])
              (ask llm (Pattern_prompt (joined_questions all_questions))
                 (\<lambda>pattern_insights. display [Pattern_insights pattern_insights])))"

definition analyze_question_papers :: "(prompt \<Rightarrow> error + string) \<Rightarrow> string list \<Rightarrow> run" where
  "analyze_question_papers llm all_questions =
     (if all_questions = [] then display [St_error no_questions_message]
      else (case repeated_readable all_questions of
              Inl e \<Rightarrow> raise e
            | Inr rr \<Rightarrow> show_results llm all_questions rr))"

definition question_paper_analysis :: "(prompt \<Rightarrow> error + string) \<Rightarrow> inputs \<Rightarrow> run" where
  "question_paper_analysis llm inp =
     (if question_papers inp \<noteq> []
      then and_then (display [Success_papers (length (question_papers inp)), Button_papers])
             (if papers_clicked inp
              then analyze_question_papers llm (all_questions_of (question_papers inp))
              else display [])
      else display [])"

definition tip :: "inputs \<Rightarrow> run" where
  "tip inp =
     (if syllabus_file inp \<noteq> None \<and> question_papers inp \<noteq> [] then display [Tip]
      else display [])"

definition script :: "(prompt \<Rightarrow> error + string) \<Rightarrow> inputs \<Rightarrow> event list" where
  "script llm inp =
     fst (and_then (check_key inp)
         (and_then file_uploads
         (and_then (syllabus_analysis llm inp)
         (and_then (question_paper_analysis llm inp) (tip inp)))))"


section \<open>The notions of the specification\<close>

subsection \<open>Numbering markers\<close>

text \<open>
  A numbering marker: optional leading whitespace, one or more digits, a closing
  delimiter which is one of \<open>)\<close>, \<open>.\<close> or \<open>]\<close>, and required whitespace.
\<close>

definition is_delimiter :: "char \<Rightarrow> bool" where
  "is_delimiter c = (c = CHR '')'' \<or> c = CHR ''.'' \<or> c = CHR '']'')"

definition is_marker :: "string \<Rightarrow> bool" where
  "is_marker m =
     (\<exists>ws ds d ws'. m = ws @ ds @ [d] @ ws' \<and>
        (\<forall>c\<in>set ws. isspace c) \<and>
        ds \<noteq> [] \<and> (\<forall>c\<in>set ds. isdecimal c) \<and>
        is_delimiter d \<and>
        ws' \<noteq> [] \<and> (\<forall>c\<in>set ws'. isspace c))"

definition after_marker :: "string \<Rightarrow> string option" where
  "after_marker s =
     (let digits = takeWhile isdecimal (dropWhile isspace s)
      in case dropWhile isdecimal (dropWhile isspace s) of
           d # w # rest \<Rightarrow>
             if digits \<noteq> [] \<and> is_delimiter d \<and> isspace w
             then Some (dropWhile isspace rest) else None
         | _ \<Rightarrow> None)"

definition contains_marker :: "string \<Rightarrow> bool" where
  "contains_marker s = (\<exists>pre m post. s = pre @ m @ post \<and> is_marker m)"

text \<open>
  \<open>after_marker s\<close> is the text that follows the marker at the start of \<open>s\<close>, taken with
  all the whitespace after it, when \<open>s\<close> starts with one. \<open>next_marker s\<close> finds the first
  position of \<open>s\<close> where a marker starts; \<open>split_at_markers\<close> cuts the text at every marker
  found this way, from left to right.
\<close>

lemma after_marker_shorter: "after_marker s = Some t \<Longrightarrow> length t < length s"
proof -
  assume "after_marker s = Some t"
  then obtain d w rest where
    *: "dropWhile isdecimal (dropWhile isspace s) = d # w # rest" "t = dropWhile isspace rest"
    by (auto simp: after_marker_def Let_def split: list.splits if_splits)
  have "length t \<le> length rest" using *(2) by (simp add: length_dropWhile_le)
  also have "\<dots> < length (dropWhile isdecimal (dropWhile isspace s))" using *(1) by simp
  also have "\<dots> \<le> length (dropWhile isspace s)" by (rule length_dropWhile_le)
  also have "\<dots> \<le> length s" by (rule length_dropWhile_le)
  finally show ?thesis .
qed

fun next_marker :: "string \<Rightarrow> (string \<times> string) option" where
  "next_marker s =
     (case after_marker s of
        Some rest \<Rightarrow> Some ([], rest)
      | None \<Rightarrow>
         (case s of
            [] \<Rightarrow> None
          | c # cs \<Rightarrow>
             (case next_marker cs of
                None \<Rightarrow> None
              | Some (before, rest) \<Rightarrow> Some (c # before, rest))))"

declare next_marker.simps [simp del]

lemma next_marker_shorter: "next_marker s = Some (before, rest) \<Longrightarrow> length rest < length s"
proof (induction s arbitrary: before)
  case Nil
  then show ?case
    by (auto simp: next_marker.simps [of "[]"] split: option.splits dest: after_marker_shorter)
next
  case (Cons c cs)
  show ?case
  proof (cases "after_marker (c # cs)")
    case (Some t)
    with Cons.prems after_marker_shorter [OF Some] show ?thesis
      by (simp add: next_marker.simps [of "c # cs"])
  next
    case None
    with Cons.prems obtain b where "next_marker cs = Some (b, rest)"
      by (auto simp: next_marker.simps [of "c # cs"] split: option.splits)
    from Cons.IH [OF this] show ?thesis by simp
  qed
qed

function split_at_markers :: "string \<Rightarrow> string list" where
  "split_at_markers s =
     (case next_marker s of
        None \<Rightarrow> [s]
      | Some (before, rest) \<Rightarrow> before # split_at_markers rest)"
  by pat_completeness auto
termination
proof (relation "measure length", goal_cases)
  case 1
  show ?case by simp
next
  case (2 s x2 before rest)
  then have "next_marker s = Some (before, rest)" by simp
  from next_marker_shorter [OF this] show ?case by simp
qed

declare split_at_markers.simps [simp del]

definition remove_cr :: "string \<Rightarrow> string" where
  "remove_cr text = filter (\<lambda>c. c \<noteq> CR) text"

definition segment_spec :: "string \<Rightarrow> string list" where
  "segment_spec text =
     filter (\<lambda>q. 15 < length q) (map strip (tl (split_at_markers (remove_cr text))))"



subsection \<open>Markers at the start of a line\<close>

text \<open>
  The reading of the specification in which a marker counts only at the start of a
  line: the text before its digits, back to the previous newline or to the start of the
  text, is whitespace. \<open>split_at_line_start_markers pre s\<close> cuts \<open>s\<close>, which follows \<open>pre\<close>
  in the text, at every such marker.
\<close>

definition at_line_start :: "string \<Rightarrow> bool" where
  "at_line_start before = list_all isspace (takeWhile (\<lambda>c. c \<noteq> LF) (rev before))"

fun next_line_start_marker :: "string \<Rightarrow> string \<Rightarrow> (string \<times> string) option" where
  "next_line_start_marker pre s =
     (case (if at_line_start (pre @ takeWhile isspace s) then after_marker s else None) of
        Some rest \<Rightarrow> Some ([], rest)
      | None \<Rightarrow>
         (case s of
            [] \<Rightarrow> None
          | c # cs \<Rightarrow>
             (case next_line_start_marker (pre @ [c]) cs of
                None \<Rightarrow> None
              | Some (before, rest) \<Rightarrow> Some (c # before, rest))))"

declare next_line_start_marker.simps [simp del]

lemma next_line_start_marker_shorter:
  "next_line_start_marker pre s = Some (before, rest) \<Longrightarrow> length rest < length s"
proof (induction s arbitrary: pre before)
  case Nil
  then show ?case
    by (auto simp: next_line_start_marker.simps [of pre "[]"]
        split: option.splits if_splits dest: after_marker_shorter)
next
  case (Cons c cs)
  let ?here = "if at_line_start (pre @ takeWhile isspace (c # cs)) then after_marker (c # cs) else None"
  show ?case
  proof (cases ?here)
    case (Some t)
    then have "after_marker (c # cs) = Some t" by (simp split: if_splits)
    from after_marker_shorter [OF this] Some Cons.prems show ?thesis
      by (simp add: next_line_start_marker.simps [of pre "c # cs"])
  next
    case None
    with Cons.prems obtain b where "next_line_start_marker (pre @ [c]) cs = Some (b, rest)"
      by (auto simp: next_line_start_marker.simps [of pre "c # cs"] split: option.splits)
    from Cons.IH [OF this] show ?thesis by simp
  qed
qed

function split_at_line_start_markers :: "string \<Rightarrow> string \<Rightarrow> string list" where
  "split_at_line_start_markers pre s =
     (case next_line_start_marker pre s of
        None \<Rightarrow> [s]
      | Some (before, rest) \<Rightarrow>
          before # split_at_line_start_markers (pre @ take (length s - length rest) s) rest)"
  by pat_completeness auto
termination
proof (relation "measure (\<lambda>(pre, s). length s)", goal_cases)
  case 1
  show ?case by simp
next
  case (2 pre s x2 before rest)
  then have "next_line_start_marker pre s = Some (before, rest)" by simp
  from next_line_start_marker_shorter [OF this] show ?case by simp
qed

declare split_at_line_start_markers.simps [simp del]

definition segment_line_start_spec :: "string \<Rightarrow> string list" where
  "segment_line_start_spec text =
     filter (\<lambda>q. 15 < length q)
       (map strip (tl (split_at_line_start_markers [] (remove_cr text))))"

subsection \<open>Trimmed strings\<close>

text \<open>A string is trimmed when it neither starts nor ends with whitespace.\<close>

definition trimmed :: "string \<Rightarrow> bool" where
  "trimmed s = (s = [] \<or> (\<not> isspace (hd s) \<and> \<not> isspace (last s)))"

subsection \<open>Repeat groups\<close>

text \<open>
  A shown pair represents a group when it carries the group's count and its text is what
  the search for the group's normalized form finds in the questions.
  \<open>first_occurrence qs k orig\<close>: \<open>orig\<close> is the first question of \<open>qs\<close>, in document order,
  whose normalization is \<open>k\<close>. \<open>group_of qs q\<close> is the entry of the counter that counts \<open>q\<close>.
  Two characters are case variants when they are equal or one is the lower case of the
  other.
\<close>

definition represents :: "string list \<Rightarrow> string \<times> nat \<Rightarrow> string \<times> nat \<Rightarrow> bool" where
  "represents qs shown grp =
     (snd shown = snd grp \<and> find (\<lambda>q. strip (lower q) = fst grp) qs = Some (fst shown))"

definition first_occurrence :: "string list \<Rightarrow> string \<Rightarrow> string \<Rightarrow> bool" where
  "first_occurrence qs k orig =
     (\<exists>j<length qs. qs ! j = orig \<and> strip (lower (qs ! j)) = k \<and>
        (\<forall>i<j. strip (lower (qs ! i)) \<noteq> k))"





subsection \<open>What a run shows\<close>

text \<open>
  The repeat groups a run surfaces, the totals it reports and the prompts it sends,
  each in the order of the run.
\<close>

fun shown_group :: "event \<Rightarrow> (string \<times> nat) option" where
  "shown_group (Repeated_line c q) = Some (q, c)"
| "shown_group _ = None"


fun sent_prompt :: "event \<Rightarrow> prompt option" where
  "sent_prompt (Llm_call p) = Some p"
| "sent_prompt _ = None"

definition surfaced :: "event list \<Rightarrow> (string \<times> nat) list" where
  "surfaced es = List.map_filter shown_group es"


definition prompts :: "event list \<Rightarrow> prompt list" where
  "prompts es = List.map_filter sent_prompt es"


subsection \<open>Sample inputs\<close>

definition sample_text :: string where
  "sample_text = ''Intro text'' @ [LF] @ ''1. What is OOP?'' @ [LF] @ ''2. Define inheritance.'' @ [LF] @
     ''3. Explain polymorphism with an example.''"


definition mid_line_text :: string where
  "mid_line_text = ''Intro'' @ [LF] @ ''1. Explain figure 2. in detail please now''"


definition fifty_one_questions :: "string list" where
  "fifty_one_questions =
     replicate 49 ''Define inheritance.'' @
     [''Explain the OSI model in detail.'', ''Left out of the prompt.'']"

definition cr_text :: string where
  "cr_text = CHR ''1'' # CR # ''. What is an operating system?''"

definition plain_text :: string where
  "plain_text = ''Answer all questions. Each carries 10 marks.''"

definition sample_questions_list :: "string list" where
  "sample_questions_list =
     [''Explain the OSI model in detail.'', ''Define inheritance.'',
      ''explain the osi model in detail.'']"

definition sample_llm :: "prompt \<Rightarrow> error + string" where
  "sample_llm p = Inr ''Revise the OSI model.''"

definition sample_inputs :: inputs where
  "sample_inputs =
     \<lparr>OPENAI_API_KEY = None,
      question_papers = [[Some ''1. Explain the OSI model in detail.'']],
      syllabus_file = None, syllabus_clicked = False, papers_clicked = True\<rparr>"



section \<open>Character classes\<close>

lemma space_not_decimal: "isspace c \<Longrightarrow> \<not> isdecimal c"
  by (auto simp: isspace_def isdecimal_def Let_def)

lemma delimiter_not_decimal: "is_delimiter c \<Longrightarrow> \<not> isdecimal c"
  by (auto simp: is_delimiter_def isdecimal_def code_point_def)

lemma delimiter_not_space: "is_delimiter c \<Longrightarrow> \<not> isspace c"
  by (auto simp: is_delimiter_def isspace_def code_point_def)

lemma isspace_LF: "isspace LF"
  by (simp add: isspace_def code_point_def LF_def)

lemma isspace_CR: "isspace CR"
  by (simp add: isspace_def code_point_def CR_def)

lemma lower_char_space: "isspace (lower_char c) = isspace c"
  by (auto simp: isspace_def lower_char_def code_point_def Let_def)




section \<open>The pattern matches exactly the markers\<close>

lemma star_skip:
  assumes "\<And>c cs. in_class k c \<Longrightarrow> matches r (c # cs) = []"
  shows "matches ((k, Star) # r) s = matches r (dropWhile (in_class k) s)"
  by (induction s) (simp_all add: assms)

lemma star_last:
  "matches [(k, Star)] s \<noteq> [] \<and> hd (matches [(k, Star)] s) = dropWhile (in_class k) s"
  by (induction s) auto

lemma in_class_Space: "in_class Space = isspace" by (rule ext) simp
lemma in_class_Digit: "in_class Digit = isdecimal" by (rule ext) simp

lemma in_class_delims:
  "in_class (OneOf [CHR '')'', CHR ''.'', CHR '']'']) c = is_delimiter c"
  by (auto simp: is_delimiter_def)

lemma matches_space_plus:
  "matches [(Space, Plus)] s =
     (case s of [] \<Rightarrow> [] | w # rest \<Rightarrow> if isspace w then matches [(Space, Star)] rest else [])"
  by (cases s) auto

lemma matches_tail2:
  "matches tail2 s =
     (case s of d # w # rest \<Rightarrow>
         if is_delimiter d \<and> isspace w then matches [(Space, Star)] rest else []
      | _ \<Rightarrow> [])"
  unfolding tail2_def
  by (auto simp: in_class_delims split: list.splits simp del: in_class.simps(4))

lemma matches_digit_star:
  "matches ((Digit, Star) # tail2) s = matches tail2 (dropWhile isdecimal s)"
proof -
  have "\<And>c cs. in_class Digit c \<Longrightarrow> matches tail2 (c # cs) = []"
    by (auto simp: matches_tail2 delimiter_not_decimal split: list.splits)
  from star_skip [of Digit tail2, OF this] show ?thesis
    by (simp add: in_class_Digit)
qed

lemma matches_tail3:
  "matches tail3 s =
     (if takeWhile isdecimal s \<noteq> [] then matches tail2 (dropWhile isdecimal s) else [])"
proof (cases s)
  case Nil
  then show ?thesis by (simp add: tail3_def)
next
  case (Cons c cs)
  have "matches tail3 (c # cs) = (if isdecimal c then matches ((Digit, Star) # tail2) cs else [])"
    by (simp add: tail3_def tail2_def)
  then show ?thesis
    using Cons by (simp add: matches_digit_star)
qed

lemma matches_space_star:
  "matches ((Space, Star) # tail3) s = matches tail3 (dropWhile isspace s)"
proof -
  have "\<And>c cs. in_class Space c \<Longrightarrow> matches tail3 (c # cs) = []"
    by (auto simp: matches_tail3 space_not_decimal)
  from star_skip [of Space tail3, OF this] show ?thesis
    by (simp add: in_class_Space)
qed

lemma opt_unfold:
  "matches ((k, Opt) # r) s =
     (if s \<noteq> [] \<and> in_class k (hd s) then matches r (tl s) @ matches r s else matches r s)"
  by (cases s) auto

lemma matches_tail3_eq:
  "matches tail3 u =
     (case dropWhile isdecimal u of
        d # w # rest \<Rightarrow>
          if takeWhile isdecimal u \<noteq> [] \<and> is_delimiter d \<and> isspace w
          then matches [(Space, Star)] rest else []
      | _ \<Rightarrow> [])"
  by (simp add: matches_tail3 matches_tail2 split: list.splits del: dropWhile_eq_Nil_conv)

lemma matches_pattern:
  "matches pattern s =
     (if s \<noteq> [] \<and> hd s = LF
      then matches tail3 (dropWhile isspace s) @ matches tail3 (dropWhile isspace s)
      else matches tail3 (dropWhile isspace s))"
proof -
  have p: "pattern = (Lit LF, Opt) # (Space, Star) # tail3"
    by (simp add: pattern_def tail3_def)
  have "s \<noteq> [] \<Longrightarrow> hd s = LF \<Longrightarrow> dropWhile isspace (tl s) = dropWhile isspace s"
    by (cases s) (auto simp: isspace_LF)
  then show ?thesis
    unfolding p opt_unfold matches_space_star by simp
qed

lemma matches_pattern_None:
  assumes "after_marker s = None"
  shows "matches pattern s = []"
proof -
  have "matches tail3 (dropWhile isspace s) = []"
  proof (cases "dropWhile isdecimal (dropWhile isspace s)")
    case Nil
    then show ?thesis by (simp add: matches_tail3_eq del: dropWhile_eq_Nil_conv)
  next
    case (Cons d r1)
    show ?thesis
    proof (cases r1)
      case Nil
      with Cons show ?thesis by (simp add: matches_tail3_eq)
    next
      case (Cons w rest)
      with \<open>dropWhile isdecimal (dropWhile isspace s) = d # r1\<close> assms
      show ?thesis
        by (auto simp: matches_tail3_eq after_marker_def split: if_splits)
    qed
  qed
  then show ?thesis by (simp add: matches_pattern)
qed

lemma matches_pattern_Some:
  assumes "after_marker s = Some t"
  shows "matches pattern s \<noteq> [] \<and> hd (matches pattern s) = t"
proof -
  from assms obtain d w rest where
    *: "dropWhile isdecimal (dropWhile isspace s) = d # w # rest"
       "takeWhile isdecimal (dropWhile isspace s) \<noteq> []" "is_delimiter d" "isspace w"
       "t = dropWhile isspace rest"
    by (auto simp: after_marker_def Let_def split: list.splits if_splits)
  then have "matches tail3 (dropWhile isspace s) = matches [(Space, Star)] rest"
    by (simp add: matches_tail3 matches_tail2)
  with star_last [of Space rest] *(5) show ?thesis
    by (auto simp: matches_pattern in_class_Space)
qed

lemma first_match_pattern: "first_match adv pattern s = after_marker s"
proof (cases "after_marker s")
  case None
  then show ?thesis by (simp add: first_match_def matches_pattern_None)
next
  case (Some t)
  from matches_pattern_Some [OF Some] obtain ms where "matches pattern s = t # ms"
    by (cases "matches pattern s") auto
  with after_marker_shorter [OF Some] Some show ?thesis
    by (simp add: first_match_def)
qed

lemma re_search_pattern: "re_search adv pattern s = next_marker s"
proof (induction s arbitrary: adv)
  case Nil
  show ?case
    by (simp add: first_match_pattern next_marker.simps [of "[]"]
        re_search.simps [of adv pattern "[]"] split: option.splits)
next
  case (Cons c cs)
  show ?case
    using Cons.IH [of False]
    by (simp add: first_match_pattern next_marker.simps [of "c # cs"]
        re_search.simps [of adv pattern "c # cs"] split: option.splits)
qed

lemma re_split_from_pattern: "re_split_from adv pattern s = split_at_markers s"
proof (induction s arbitrary: adv rule: split_at_markers.induct)
  case (1 s)
  show ?case
  proof (cases "next_marker s")
    case None
    then show ?thesis
      by (subst re_split_from.simps, subst split_at_markers.simps) (simp add: re_search_pattern)
  next
    case (Some p)
    obtain before rest where p: "p = (before, rest)" by (cases p)
    from "1.IH" [OF Some p [symmetric]]
    have "\<And>adv. re_split_from adv pattern rest = split_at_markers rest" by simp
    with Some p show ?thesis
      by (subst re_split_from.simps, subst split_at_markers.simps) (simp add: re_search_pattern)
  qed
qed

lemma collect_questions_eq:
  "collect_questions acc parts = acc @ filter (\<lambda>q. 15 < length q) (map strip parts)"
  by (induction parts arbitrary: acc) (simp_all add: Let_def)

lemma str_join_empty: "str_join [] xs = concat xs"
  by (induction "[] :: string" xs rule: str_join.induct) simp_all

lemma matches_cr: "matches [(Lit CR, Once)] s = (case s of [] \<Rightarrow> [] | c # cs \<Rightarrow> if c = CR then [cs] else [])"
  by (cases s) auto

lemma first_match_cr:
  "first_match adv [(Lit CR, Once)] s = (case s of [] \<Rightarrow> None | c # cs \<Rightarrow> if c = CR then Some cs else None)"
  by (cases s) (auto simp: first_match_def)

lemma re_search_cr_concat:
  "re_search adv [(Lit CR, Once)] s = None \<Longrightarrow> filter (\<lambda>c. c \<noteq> CR) s = s"
  "re_search adv [(Lit CR, Once)] s = Some (seg, t) \<Longrightarrow>
     filter (\<lambda>c. c \<noteq> CR) s = seg @ filter (\<lambda>c. c \<noteq> CR) t"
proof (induction s arbitrary: adv seg)
  case Nil
  { case 1 show ?case by simp }
  { case 2 then show ?case by (simp add: first_match_cr re_search.simps [of adv _ "[]"]) }
next
  case (Cons c cs)
  { case 1
    then show ?case using Cons.IH(1) [of False]
      by (auto simp: first_match_cr re_search.simps [of adv _ "c # cs"]
          split: if_splits option.splits) }
  { case 2
    then show ?case using Cons.IH(2) [of False]
      by (auto simp: first_match_cr re_search.simps [of adv _ "c # cs"]
          split: if_splits option.splits) }
qed

lemma re_sub_cr: "re_sub [(Lit CR, Once)] [] s = remove_cr s"
proof -
  have "concat (re_split_from adv [(Lit CR, Once)] s) = filter (\<lambda>c. c \<noteq> CR) s" for adv
  proof (induction adv "[(Lit CR, Once)]" s rule: re_split_from.induct)
    case (1 adv s)
    show ?case
    proof (cases "re_search adv [(Lit CR, Once)] s")
      case None
      with re_search_cr_concat(1) [OF None] show ?thesis
        by (subst re_split_from.simps) simp
    next
      case (Some p)
      obtain seg t where p: "p = (seg, t)" by (cases p)
      from "1.hyps" [OF Some p [symmetric]] re_search_cr_concat(2) [of adv s seg t] Some p
      show ?thesis
        by (subst re_split_from.simps) simp
    qed
  qed
  then show ?thesis
    by (simp add: re_sub_def re_split_def str_join_empty remove_cr_def)
qed

lemma after_marker_SomeD:
  assumes "after_marker s = Some t"
  shows "\<exists>m. s = m @ t \<and> is_marker m \<and> (t = [] \<or> \<not> isspace (hd t))"
proof -
  let ?s1 = "dropWhile isspace s"
  from assms obtain d w rest where
    *: "dropWhile isdecimal ?s1 = d # w # rest"
       "takeWhile isdecimal ?s1 \<noteq> []" "is_delimiter d" "isspace w"
       "t = dropWhile isspace rest"
    by (auto simp: after_marker_def Let_def split: list.splits if_splits)
  let ?ws = "takeWhile isspace s" and ?ds = "takeWhile isdecimal ?s1"
  let ?ws' = "w # takeWhile isspace rest"
  have "s = ?ws @ ?s1" by simp
  also have "?s1 = ?ds @ dropWhile isdecimal ?s1" by simp
  also have "dropWhile isdecimal ?s1 = [d] @ ?ws' @ t" using * by simp
  finally have s: "s = (?ws @ ?ds @ [d] @ ?ws') @ t" by simp
  have "is_marker (?ws @ ?ds @ [d] @ ?ws')"
    unfolding is_marker_def
    using * by (intro exI [of _ ?ws] exI [of _ ?ds] exI [of _ d] exI [of _ ?ws'])
      (auto dest: set_takeWhileD)
  moreover have "t = [] \<or> \<not> isspace (hd t)"
    using *(5) hd_dropWhile [of isspace rest] by auto
  ultimately show ?thesis using s by blast
qed

lemma after_marker_SomeI:
  assumes "is_marker m" and "t = [] \<or> \<not> isspace (hd t)"
  shows "after_marker (m @ t) = Some t"
proof -
  from assms(1) obtain ws ds d ws' where
    m: "m = ws @ ds @ [d] @ ws'" and ws: "\<forall>c\<in>set ws. isspace c"
    and ds: "ds \<noteq> []" "\<forall>c\<in>set ds. isdecimal c" and d: "is_delimiter d"
    and ws': "ws' \<noteq> []" "\<forall>c\<in>set ws'. isspace c"
    unfolding is_marker_def by blast
  from ds obtain x xs where x: "ds = x # xs" "isdecimal x" by (cases ds) auto
  from ws' obtain w ws'' where w: "ws' = w # ws''" "isspace w" "\<forall>c\<in>set ws''. isspace c"
    by (cases ws') auto
  from x space_not_decimal have "\<not> isspace x" by blast
  with ws x have s1: "dropWhile isspace (m @ t) = ds @ d # w # ws'' @ t"
    by (simp add: m w dropWhile_append2)
  have tw: "takeWhile isdecimal (ds @ d # w # ws'' @ t) = ds"
    using ds d by (simp add: takeWhile_tail delimiter_not_decimal)
  have dw: "dropWhile isdecimal (ds @ d # w # ws'' @ t) = d # w # ws'' @ t"
    using ds d by (simp add: dropWhile_append3 delimiter_not_decimal)
  have "dropWhile isspace (ws'' @ t) = t"
    using w(3) assms(2) by (cases t) (simp_all add: dropWhile_append2)
  then show ?thesis
    unfolding after_marker_def s1 tw dw using ds d w by simp
qed

lemma after_marker_Some_iff:
  "after_marker s = Some t \<longleftrightarrow>
     (\<exists>m. s = m @ t \<and> is_marker m \<and> (t = [] \<or> \<not> isspace (hd t)))"
  using after_marker_SomeD after_marker_SomeI by blast

lemma marker_prefix_recognised:
  assumes "is_marker m"
  shows "after_marker (m @ r) \<noteq> None"
proof -
  let ?t = "dropWhile isspace r"
  have "is_marker (m @ takeWhile isspace r)"
  proof -
    from assms obtain ws ds d ws' where
      "m = ws @ ds @ [d] @ ws'" "\<forall>c\<in>set ws. isspace c"
      "ds \<noteq> []" "\<forall>c\<in>set ds. isdecimal c" "is_delimiter d"
      "ws' \<noteq> []" "\<forall>c\<in>set ws'. isspace c"
      unfolding is_marker_def by blast
    then show ?thesis
      unfolding is_marker_def
      by (intro exI [of _ ws] exI [of _ ds] exI [of _ d] exI [of _ "ws' @ takeWhile isspace r"])
        (auto dest: set_takeWhileD)
  qed
  moreover have "?t = [] \<or> \<not> isspace (hd ?t)"
    using hd_dropWhile [of isspace r] by auto
  ultimately have "after_marker ((m @ takeWhile isspace r) @ ?t) = Some ?t"
    by (rule after_marker_SomeI)
  then show ?thesis by simp
qed

lemma next_marker_SomeD:
  "next_marker s = Some (before, rest) \<Longrightarrow> \<exists>m. s = before @ m @ rest \<and> is_marker m"
proof (induction s arbitrary: before)
  case Nil
  then show ?case
    by (auto simp: next_marker.simps [of "[]"] split: option.splits dest: after_marker_SomeD)
next
  case (Cons c cs)
  show ?case
  proof (cases "after_marker (c # cs)")
    case (Some t)
    with Cons.prems have "before = []" "rest = t"
      by (simp_all add: next_marker.simps [of "c # cs"])
    with after_marker_SomeD [OF Some] show ?thesis by auto
  next
    case None
    with Cons.prems obtain b where b: "next_marker cs = Some (b, rest)" "before = c # b"
      by (auto simp: next_marker.simps [of "c # cs"] split: option.splits)
    from Cons.IH [OF b(1)] b(2) show ?thesis by auto
  qed
qed

lemma next_marker_None_iff: "next_marker s = None \<longleftrightarrow> \<not> contains_marker s"
proof
  assume "next_marker s = None"
  then show "\<not> contains_marker s"
  proof (induction s)
    case Nil
    then have "after_marker [] = None"
      by (simp add: next_marker.simps [of "[]"] split: option.splits)
    then show ?case
      using marker_prefix_recognised [of "[]" "[]"] by (auto simp: contains_marker_def)
  next
    case (Cons c cs)
    from Cons.prems have none: "after_marker (c # cs) = None" "next_marker cs = None"
      by (auto simp: next_marker.simps [of "c # cs"] split: option.splits)
    show ?case
    proof
      assume "contains_marker (c # cs)"
      then obtain pre m post where pm: "c # cs = pre @ m @ post" "is_marker m"
        unfolding contains_marker_def by blast
      show False
      proof (cases pre)
        case Nil
        with pm none(1) marker_prefix_recognised [OF pm(2), of post] show False by simp
      next
        case (Cons p pre')
        with pm have "contains_marker cs" unfolding contains_marker_def by auto
        with Cons.IH [OF none(2)] show False by simp
      qed
    qed
  qed
next
  assume "\<not> contains_marker s"
  show "next_marker s = None"
  proof (rule ccontr)
    assume "next_marker s \<noteq> None"
    then obtain before rest where "next_marker s = Some (before, rest)" by auto
    from next_marker_SomeD [OF this] \<open>\<not> contains_marker s\<close> show False
      unfolding contains_marker_def by blast
  qed
qed

lemma contains_marker_code: "contains_marker s \<longleftrightarrow> next_marker s \<noteq> None"
  by (simp add: next_marker_None_iff)

lemma split_no_marker: "\<not> contains_marker s \<Longrightarrow> split_at_markers s = [s]"
  by (subst split_at_markers.simps) (simp add: next_marker_None_iff [symmetric])

lemma contains_marker_Nil: "\<not> contains_marker []"
  unfolding contains_marker_code by code_simp

text \<open>
  What \<open>split_at_markers\<close> cuts out is a marker, taken with all the whitespace after
  it, and no marker is left in any part.
\<close>

lemma next_marker_rest:
  "next_marker s = Some (before, rest) \<Longrightarrow> rest = [] \<or> \<not> isspace (hd rest)"
proof (induction s arbitrary: before)
  case Nil
  then show ?case
    by (auto simp: next_marker.simps [of "[]"] split: option.splits dest: after_marker_SomeD)
next
  case (Cons c cs)
  show ?case
  proof (cases "after_marker (c # cs)")
    case (Some t)
    with Cons.prems have "rest = t" by (simp add: next_marker.simps [of "c # cs"])
    with after_marker_SomeD [OF Some] show ?thesis by auto
  next
    case None
    with Cons.prems obtain b where "next_marker cs = Some (b, rest)"
      by (auto simp: next_marker.simps [of "c # cs"] split: option.splits)
    then show ?thesis by (rule Cons.IH)
  qed
qed

lemma next_marker_before:
  "next_marker s = Some (before, rest) \<Longrightarrow> \<not> contains_marker before"
proof (induction s arbitrary: before)
  case Nil
  then have "before = []"
    by (auto simp: next_marker.simps [of "[]"] split: option.splits)
  then show ?case by (simp add: contains_marker_Nil)
next
  case (Cons c cs)
  show ?case
  proof (cases "after_marker (c # cs)")
    case (Some t)
    with Cons.prems have "before = []" by (simp add: next_marker.simps [of "c # cs"])
    then show ?thesis by (simp add: contains_marker_Nil)
  next
    case None
    with Cons.prems obtain b where b: "next_marker cs = Some (b, rest)" "before = c # b"
      by (auto simp: next_marker.simps [of "c # cs"] split: option.splits)
    from next_marker_SomeD [OF b(1)] obtain m' where cs: "cs = b @ m' @ rest" by blast
    show ?thesis
    proof
      assume "contains_marker before"
      then obtain pre m post where pm: "c # b = pre @ m @ post" "is_marker m"
        unfolding contains_marker_def b(2) by blast
      show False
      proof (cases pre)
        case Nil
        with pm(1) cs have "c # cs = m @ (post @ m' @ rest)" by simp
        with marker_prefix_recognised [OF pm(2), of "post @ m' @ rest"] None
        show False by simp
      next
        case (Cons p pre')
        with pm have "contains_marker b" unfolding contains_marker_def by auto
        with Cons.IH [OF b(1)] show False by simp
      qed
    qed
  qed
qed

lemma split_parts_no_marker: "p \<in> set (split_at_markers s) \<Longrightarrow> \<not> contains_marker p"
proof (induction s rule: split_at_markers.induct)
  case (1 s)
  show ?case
  proof (cases "next_marker s")
    case None
    with "1.prems" have "p = s" by (simp add: split_at_markers.simps [of s])
    with None show ?thesis by (simp add: next_marker_None_iff)
  next
    case (Some br)
    obtain before rest where br: "br = (before, rest)" by (cases br)
    with Some "1.prems" have "p = before \<or> p \<in> set (split_at_markers rest)"
      by (simp add: split_at_markers.simps [of s])
    then show ?thesis
    proof
      assume "p = before"
      with next_marker_before [of s before rest] Some br show ?thesis by simp
    next
      assume "p \<in> set (split_at_markers rest)"
      with "1.IH" [OF Some br [symmetric]] show ?thesis by simp
    qed
  qed
qed


section \<open>Trimming\<close>

lemma rev_dropWhile_rev:
  "xs = rev (dropWhile P (rev xs)) @ rev (takeWhile P (rev xs))"
  by (metis rev_append rev_rev_ident takeWhile_dropWhile_id)

lemma strip_decomp:
  "\<exists>l r. s = l @ strip s @ r \<and> (\<forall>c\<in>set l. isspace c) \<and> (\<forall>c\<in>set r. isspace c)"
proof -
  let ?t = "dropWhile isspace s"
  have "?t = strip s @ rev (takeWhile isspace (rev ?t))"
    unfolding strip_def by (rule rev_dropWhile_rev)
  then have "s = takeWhile isspace s @ strip s @ rev (takeWhile isspace (rev ?t))"
    by (metis takeWhile_dropWhile_id)
  moreover have "\<forall>c\<in>set (takeWhile isspace s). isspace c"
    by (auto dest: set_takeWhileD)
  moreover have "\<forall>c\<in>set (rev (takeWhile isspace (rev ?t))). isspace c"
    by (auto dest: set_takeWhileD)
  ultimately show ?thesis by blast
qed


lemma strip_trimmed:
  assumes "trimmed s"
  shows "strip s = s"
proof (cases "s = []")
  case True
  then show ?thesis by (simp add: strip_def)
next
  case False
  with assms have h: "\<not> isspace (hd s)" and l: "\<not> isspace (last s)"
    by (auto simp: trimmed_def)
  from h have 1: "dropWhile isspace s = s" by (simp add: dropWhile_eq_self_iff)
  from l have "\<not> isspace (hd (rev s))" by (simp add: hd_rev)
  then have 2: "dropWhile isspace (rev s) = rev s" by (simp add: dropWhile_eq_self_iff)
  show ?thesis by (simp add: strip_def 1 2)
qed

lemma trimmed_strip: "trimmed (strip s)"
proof (cases "strip s = []")
  case True
  then show ?thesis by (simp add: trimmed_def)
next
  case False
  let ?t = "dropWhile isspace s"
  let ?u = "dropWhile isspace (rev ?t)"
  from False have u: "?u \<noteq> []" unfolding strip_def by (simp only: rev_is_Nil_conv not_False_eq_True)
  then have "\<not> isspace (hd ?u)" by (rule hd_dropWhile)
  moreover have "last (strip s) = hd ?u" unfolding strip_def by (rule last_rev)
  ultimately have last: "\<not> isspace (last (strip s))" by simp
  have t: "?t \<noteq> []"
  proof
    assume "?t = []"
    then have "?u = []" by (simp only: rev.simps dropWhile.simps)
    with u show False by simp
  qed
  then have "\<not> isspace (hd ?t)" by (rule hd_dropWhile)
  moreover have "hd ?t = hd (strip s)"
  proof -
    have "?t = strip s @ rev (takeWhile isspace (rev ?t))"
      unfolding strip_def by (rule rev_dropWhile_rev)
    with False show ?thesis by (metis hd_append2)
  qed
  ultimately show ?thesis using last by (simp add: trimmed_def)
qed

lemma strip_idem: "strip (strip s) = strip s"
  by (rule strip_trimmed) (rule trimmed_strip)


section \<open>The segmenter\<close>

lemma split_into_questions_parts:
  "split_into_questions text =
     filter (\<lambda>q. 15 < length q) (map strip (tl (split_at_markers (remove_cr text))))"
  by (simp add: split_into_questions_def re_sub_cr re_split_def
      re_split_from_pattern collect_questions_eq drop_Suc)

lemma sample_questions:
  "split_into_questions sample_text = [''Define inheritance.'', ''Explain polymorphism with an example.'']"
  by code_simp

lemma mid_line_code: "split_into_questions mid_line_text = [''in detail please now'']"
  by code_simp

lemma mid_line_spec:
  "segment_line_start_spec mid_line_text = [''Explain figure 2. in detail please now'']"
  by code_simp

text \<open>
  C1, as amended: the segmenter strips the carriage returns, splits the text at every
  numbering marker, wherever in a line it stands, discards the first segment, trims each
  remaining segment and returns, in document order, exactly the trimmed segments longer
  than 15 characters. The markers are found from left to right (\<open>next_marker_SomeD\<close>,
  \<open>next_marker_rest\<close>), and none is left in a segment (\<open>split_parts_no_marker\<close>).
\<close>

theorem segmenter_refines_spec: "split_into_questions text = segment_spec text"
  unfolding segment_spec_def by (rule split_into_questions_parts)

text \<open>
  C1 as stated, with markers at the start of a line only, fails: the pattern has no
  anchor, and a number with a delimiter in the middle of a question cuts the question.
\<close>

theorem line_start_counterexample:
  "split_into_questions (''Intro'' @ [LF] @ ''1. Explain figure 2. in detail please now'') =
     [''in detail please now''] \<and>
   segment_line_start_spec (''Intro'' @ [LF] @ ''1. Explain figure 2. in detail please now'') =
     [''Explain figure 2. in detail please now'']"
  using mid_line_code mid_line_spec by (simp add: mid_line_text_def)

text \<open>
  C2: every question the segmenter returns is longer than 15 characters after trimming
  and is already trimmed: it equals its own trim and has no whitespace at either end.
\<close>

theorem questions_trimmed_and_long:
  "\<forall>q\<in>set (split_into_questions text).
     15 < length (strip q) \<and> strip q = q \<and> \<not> isspace (hd q) \<and> \<not> isspace (last q)"
proof
  fix q
  assume "q \<in> set (split_into_questions text)"
  then obtain p where q: "q = strip p" and len: "15 < length q"
    by (auto simp: split_into_questions_parts)
  from q have "strip q = q" by (simp add: strip_idem)
  moreover from q have "trimmed q" by (simp add: trimmed_strip)
  with len have "\<not> isspace (hd q) \<and> \<not> isspace (last q)" by (auto simp: trimmed_def)
  ultimately show "15 < length (strip q) \<and> strip q = q \<and> \<not> isspace (hd q) \<and> \<not> isspace (last q)"
    using len by simp
qed

theorem questions_trimmed_and_long_witness:
  "''Define inheritance.'' \<in> set (split_into_questions sample_text) \<and>
   15 < length (strip ''Define inheritance.'') \<and> strip ''Define inheritance.'' = ''Define inheritance.''"
  using questions_trimmed_and_long [of sample_text] by (simp add: sample_questions)


lemma plain_text_no_marker: "\<not> contains_marker (remove_cr plain_text)"
  unfolding contains_marker_code by code_simp

lemma cr_text_no_marker: "\<not> contains_marker cr_text"
  unfolding contains_marker_code by code_simp

lemma cr_text_questions: "split_into_questions cr_text = [''What is an operating system?'']"
  by code_simp

text \<open>
  C7, as amended: the segmenter is a total function with no failing branch; on the empty
  text, and on any text that contains no numbering marker once its carriage returns are
  stripped, it returns the empty sequence.
\<close>

theorem no_marker_no_questions:
  "split_into_questions [] = [] \<and>
   (\<not> contains_marker (remove_cr text) \<longrightarrow> split_into_questions text = [])"
proof -
  have "\<not> contains_marker (remove_cr t) \<Longrightarrow> split_into_questions t = []" for t
    by (simp add: split_into_questions_parts split_no_marker)
  moreover have "remove_cr [] = []" by (simp add: remove_cr_def)
  ultimately show ?thesis using contains_marker_Nil by metis
qed

theorem no_marker_no_questions_witness:
  "\<not> contains_marker (remove_cr plain_text) \<and> split_into_questions plain_text = []"
  using no_marker_no_questions [of plain_text] plain_text_no_marker by simp

text \<open>
  C7 as stated fails: a text in which a carriage return stands between the digits and
  the delimiter contains no marker, and stripping the carriage return makes one.
\<close>

theorem no_marker_counterexample:
  "\<not> contains_marker (CHR ''1'' # CR # ''. What is an operating system?'') \<and>
   split_into_questions (CHR ''1'' # CR # ''. What is an operating system?'') \<noteq> []"
  using cr_text_no_marker cr_text_questions by (simp add: cr_text_def)


section \<open>The counter\<close>

lemma count_element_keys:
  "map fst (count_element x m) = (if x \<in> fst ` set m then map fst m else map fst m @ [x])"
  by (induction m) force+


lemma count_element_lookup:
  "map_of (count_element x m) k =
     (if k = x then Some (case map_of m x of None \<Rightarrow> 1 | Some c \<Rightarrow> c + 1) else map_of m k)"
  by (induction m) auto


lemma fold_count_distinct:
  "distinct (map fst m) \<Longrightarrow> distinct (map fst (fold count_element xs m))"
  by (induction xs arbitrary: m) (simp_all add: count_element_keys)

lemma fold_count_lookup:
  "map_of (fold count_element xs m) k =
     (case map_of m k of
        None \<Rightarrow> if k \<in> set xs then Some (count_list xs k) else None
      | Some c \<Rightarrow> Some (c + count_list xs k))"
  by (induction xs arbitrary: m) (auto simp: count_element_lookup split: option.splits)

lemma Counter_distinct: "distinct (map fst (Counter xs))"
  by (simp add: Counter_def fold_count_distinct)


lemma Counter_lookup:
  "map_of (Counter xs) k = (if k \<in> set xs then Some (count_list xs k) else None)"
  by (simp add: Counter_def fold_count_lookup)

lemma Counter_member:
  "(k, c) \<in> set (Counter xs) \<longleftrightarrow> k \<in> set xs \<and> c = count_list xs k"
  using map_of_eq_Some_iff [OF Counter_distinct, of xs k c]
  by (auto simp: Counter_lookup split: if_splits)

lemma repeated_member:
  "(k, c) \<in> set (repeated qs) \<longleftrightarrow>
     k \<in> set (normalized qs) \<and> c = count_list (normalized qs) k \<and> 1 < c"
  by (auto simp: repeated_def counts_def Counter_member)

lemma next_where_found:
  assumes "k \<in> set (normalized qs)"
  shows "\<exists>orig. next_where (\<lambda>q. strip (lower q) = k) qs = Inr orig \<and>
           find (\<lambda>q. strip (lower q) = k) qs = Some orig"
proof -
  from assms obtain q where "q \<in> set qs" "strip (lower q) = k"
    by (auto simp: normalized_def)
  then have "find (\<lambda>q. strip (lower q) = k) qs \<noteq> None"
    by (auto simp: find_None_iff)
  then show ?thesis by (auto simp: next_where_def)
qed

lemma map_back_ok:
  assumes "\<forall>(k, c)\<in>set rep. k \<in> set (normalized qs)"
  shows "\<exists>rr. map_back qs acc rep = Inr (acc @ rr) \<and> list_all2 (represents qs) rr rep"
  using assms
proof (induction rep arbitrary: acc)
  case Nil
  then show ?case by simp
next
  case (Cons g rep)
  obtain k c where g: "g = (k, c)" by (cases g)
  with Cons.prems have "k \<in> set (normalized qs)" by simp
  from next_where_found [OF this] obtain orig where
    orig: "next_where (\<lambda>q. strip (lower q) = k) qs = Inr orig"
          "find (\<lambda>q. strip (lower q) = k) qs = Some orig"
    by blast
  from Cons.prems have "\<forall>(k, c)\<in>set rep. k \<in> set (normalized qs)" by simp
  from Cons.IH [OF this, of "acc @ [(orig, c)]"] obtain rr where
    rr: "map_back qs (acc @ [(orig, c)]) rep = Inr ((acc @ [(orig, c)]) @ rr)"
        "list_all2 (represents qs) rr rep"
    by blast
  have "map_back qs acc (g # rep) = Inr (acc @ (orig, c) # rr)"
    using orig(1) rr(1) by (simp add: g)
  moreover have "list_all2 (represents qs) ((orig, c) # rr) (g # rep)"
    using orig(2) rr(2) by (simp add: g represents_def)
  ultimately show ?case by blast
qed

lemma repeated_readable_ok:
  "\<exists>rr. repeated_readable qs = Inr rr \<and> list_all2 (represents qs) rr (repeated qs)"
proof -
  have "\<forall>(k, c)\<in>set (repeated qs). k \<in> set (normalized qs)"
    by (auto simp: repeated_member)
  from map_back_ok [OF this, of "[]"] show ?thesis
    by (simp add: repeated_readable_def)
qed


section \<open>The events of the analysis\<close>

lemma map_filter_append: "List.map_filter f (xs @ ys) = List.map_filter f xs @ List.map_filter f ys"
  by (simp add: List.map_filter_def)

lemma map_filter_Cons:
  "List.map_filter f (x # xs) = (case f x of None \<Rightarrow> List.map_filter f xs | Some y \<Rightarrow> y # List.map_filter f xs)"
  by (simp add: List.map_filter_def split: option.splits)

lemma map_filter_Nil: "List.map_filter f [] = []"
  by (simp add: List.map_filter_def)

lemma surfaced_lines: "surfaced (map (\<lambda>(q, c). Repeated_line c q) xs) = xs"
  by (induction xs) (auto simp: surfaced_def map_filter_Cons map_filter_Nil)

lemma fst_ask:
  "fst (ask llm p continue) =
     Llm_call p # (case call_llm llm p of Inl e \<Rightarrow> [Uncaught e] | Inr a \<Rightarrow> fst (continue a))"
  by (simp add: ask_def and_then_def display_def raise_def split: sum.splits)

lemma fst_show_results:
  "fst (show_results llm qs rr) =
     Total_questions (length qs) #
     (if rr \<noteq> [] then Repeated_header # map (\<lambda>(q, c). Repeated_line c q) (sorted_by_count_desc rr)
      else [Info_no_repeats]) @
     Llm_call (Pattern_prompt (joined_questions qs)) #
     (case call_llm llm (Pattern_prompt (joined_questions qs)) of
        Inl e \<Rightarrow> [Uncaught e] | Inr a \<Rightarrow> [Pattern_insights a])"
  by (simp add: show_results_def and_then_def display_def fst_ask split: sum.splits)

lemma sorted_by_count_desc_Nil: "sorted_by_count_desc [] = []"
  by (simp add: sorted_by_count_desc_def)

lemma surfaced_show_results: "surfaced (fst (show_results llm qs rr)) = sorted_by_count_desc rr"
proof -
  have "surfaced (a # es) = surfaced es" if "shown_group a = None" for a es
    using that by (simp add: surfaced_def map_filter_Cons)
  moreover have "surfaced (xs @ ys) = surfaced xs @ surfaced ys" for xs ys
    by (simp add: surfaced_def map_filter_append)
  moreover have "surfaced [] = []" by (simp add: surfaced_def map_filter_Nil)
  ultimately show ?thesis
    by (simp add: fst_show_results surfaced_lines sorted_by_count_desc_Nil split: sum.splits)
qed


lemma prompts_show_results:
  "prompts (fst (show_results llm qs rr)) = [Pattern_prompt (joined_questions qs)]"
proof -
  have "prompts (map (\<lambda>(q, c). Repeated_line c q) xs) = []" for xs
    by (induction xs) (auto simp: prompts_def map_filter_Cons map_filter_Nil)
  then show ?thesis
    by (simp add: fst_show_results prompts_def map_filter_Cons map_filter_Nil map_filter_append
        split: sum.splits)
qed

lemma analyze_nonempty:
  assumes "qs \<noteq> []"
  shows "\<exists>rr. repeated_readable qs = Inr rr \<and> list_all2 (represents qs) rr (repeated qs) \<and>
           analyze_question_papers llm qs = show_results llm qs rr"
  using repeated_readable_ok [of qs] assms by (auto simp: analyze_question_papers_def)

lemma analyze_empty: "fst (analyze_question_papers llm []) = [St_error no_questions_message]"
  by (simp add: analyze_question_papers_def display_def)

lemma surfaced_analysis:
  "\<exists>rr. list_all2 (represents qs) rr (repeated qs) \<and>
        surfaced (fst (analyze_question_papers llm qs)) = sorted_by_count_desc rr"
proof (cases "qs = []")
  case True
  have "repeated [] = []" by (simp add: repeated_def counts_def normalized_def Counter_def)
  with True show ?thesis
    by (simp add: analyze_empty surfaced_def map_filter_Cons map_filter_Nil
        sorted_by_count_desc_Nil)
next
  case False
  from analyze_nonempty [OF False, of llm] show ?thesis
    by (auto simp: surfaced_show_results)
qed

lemma set_sorted_by_count_desc: "set (sorted_by_count_desc xs) = set xs"
  by (simp add: sorted_by_count_desc_def)

lemma sorted_by_count_desc_sorted:
  "sorted_wrt (\<lambda>a b. snd b \<le> snd a) (sorted_by_count_desc xs)"
proof -
  have "sorted (map snd (sort_key snd (rev xs)))" by (rule sorted_sort_key)
  then have "sorted_wrt (\<lambda>a b. snd a \<le> snd b) (sort_key snd (rev xs))"
    by (simp add: sorted_map)
  then show ?thesis
    by (simp add: sorted_by_count_desc_def sorted_wrt_rev)
qed

lemma represents_member:
  assumes "list_all2 (represents qs) rr rep" and "shown \<in> set rr"
  shows "\<exists>grp\<in>set rep. represents qs shown grp"
  using assms by (induction rule: list_all2_induct) auto

lemma find_first_occurrence:
  "find (\<lambda>q. strip (lower q) = k) qs = Some orig \<Longrightarrow> first_occurrence qs k orig"
  by (auto simp: find_Some_iff first_occurrence_def)







lemma sample_counts:
  "counts sample_questions_list =
     [(''explain the osi model in detail.'', 2), (''define inheritance.'', 1)]"
  by code_simp

lemma sample_repeated:
  "repeated sample_questions_list = [(''explain the osi model in detail.'', 2)]"
  by code_simp

lemma sample_surfaced:
  "surfaced (fst (analyze_question_papers sample_llm sample_questions_list)) =
     [(''Explain the OSI model in detail.'', 2)]"
  by code_simp


section \<open>The repeat detector\<close>









text \<open>
  C5: every repeat group the script surfaces has a count above one, and the groups are
  shown in descending order of their counts.
\<close>

theorem surfaced_groups_repeat_sorted:
  "(\<forall>shown\<in>set (surfaced (fst (analyze_question_papers llm qs))). 1 < snd shown) \<and>
   sorted_wrt (\<lambda>a b. snd b \<le> snd a) (surfaced (fst (analyze_question_papers llm qs)))"
proof -
  from surfaced_analysis [of qs llm] obtain rr where
    rr: "list_all2 (represents qs) rr (repeated qs)"
        "surfaced (fst (analyze_question_papers llm qs)) = sorted_by_count_desc rr"
    by blast
  have "1 < snd shown" if "shown \<in> set rr" for shown
  proof -
    from represents_member [OF rr(1) that] obtain k c where
      "(k, c) \<in> set (repeated qs)" "snd shown = c"
      by (auto simp: represents_def)
    then show ?thesis by (simp add: repeated_member)
  qed
  then show ?thesis
    by (simp add: rr(2) set_sorted_by_count_desc sorted_by_count_desc_sorted)
qed

theorem surfaced_groups_repeat_sorted_witness:
  "(''Explain the OSI model in detail.'', 2) \<in>
     set (surfaced (fst (analyze_question_papers sample_llm sample_questions_list))) \<and>
   1 < snd (''Explain the OSI model in detail.'', 2 :: nat)"
  using surfaced_groups_repeat_sorted [of sample_llm sample_questions_list]
  by (simp add: sample_surfaced)

text \<open>
  C6: the text shown for a surfaced group is the first question of the input, in
  document order, whose normalization is the group's normalized form, in its original
  form.
\<close>

theorem representative_is_first_original:
  "\<forall>shown\<in>set (surfaced (fst (analyze_question_papers llm qs))).
     \<exists>grp\<in>set (repeated qs). snd shown = snd grp \<and> first_occurrence qs (fst grp) (fst shown)"
proof -
  from surfaced_analysis [of qs llm] obtain rr where
    rr: "list_all2 (represents qs) rr (repeated qs)"
        "surfaced (fst (analyze_question_papers llm qs)) = sorted_by_count_desc rr"
    by blast
  show ?thesis
  proof
    fix shown
    assume "shown \<in> set (surfaced (fst (analyze_question_papers llm qs)))"
    then have "shown \<in> set rr" by (simp add: rr(2) set_sorted_by_count_desc)
    from represents_member [OF rr(1) this] obtain grp where
      "grp \<in> set (repeated qs)" "represents qs shown grp" by blast
    then show "\<exists>grp\<in>set (repeated qs). snd shown = snd grp \<and>
                 first_occurrence qs (fst grp) (fst shown)"
      by (auto simp: represents_def dest: find_first_occurrence)
  qed
qed

theorem representative_is_first_original_witness:
  "(''Explain the OSI model in detail.'', 2) \<in>
     set (surfaced (fst (analyze_question_papers sample_llm sample_questions_list))) \<and>
   (\<exists>grp\<in>set (repeated sample_questions_list).
      snd (''Explain the OSI model in detail.'', 2 :: nat) = snd grp \<and>
      first_occurrence sample_questions_list (fst grp)
        (fst (''Explain the OSI model in detail.'', 2 :: nat)))"
  using representative_is_first_original [of sample_llm sample_questions_list]
  by (simp add: sample_surfaced)

text \<open>
  C10: for every normalized form counted more than once some question of the list
  normalizes to it, so the search for the first matching original finds one, whose
  normalization is the group's key, and the loop never raises \<open>StopIteration\<close>.
\<close>

theorem lookup_never_stops:
  "(\<forall>grp\<in>set (repeated qs).
      (\<exists>q\<in>set qs. strip (lower q) = fst grp) \<and>
      (\<exists>orig. next_where (\<lambda>q. strip (lower q) = fst grp) qs = Inr orig \<and>
               strip (lower orig) = fst grp)) \<and>
   (\<exists>rr. repeated_readable qs = Inr rr)"
proof -
  have "(\<exists>q\<in>set qs. strip (lower q) = fst grp) \<and>
        (\<exists>orig. next_where (\<lambda>q. strip (lower q) = fst grp) qs = Inr orig \<and>
                 strip (lower orig) = fst grp)"
    if "grp \<in> set (repeated qs)" for grp
  proof -
    obtain k c where "grp = (k, c)" by (cases grp)
    with that have k: "fst grp \<in> set (normalized qs)"
      by (simp add: repeated_member)
    then have "\<exists>q\<in>set qs. strip (lower q) = fst grp" by (auto simp: normalized_def)
    moreover from next_where_found [OF k] obtain orig where
      "next_where (\<lambda>q. strip (lower q) = fst grp) qs = Inr orig"
      "find (\<lambda>q. strip (lower q) = fst grp) qs = Some orig" by blast
    then have "\<exists>orig. next_where (\<lambda>q. strip (lower q) = fst grp) qs = Inr orig \<and>
                 strip (lower orig) = fst grp"
      by (auto simp: find_Some_iff)
    ultimately show ?thesis by blast
  qed
  moreover from repeated_readable_ok [of qs] have "\<exists>rr. repeated_readable qs = Inr rr" by blast
  ultimately show ?thesis by blast
qed

theorem lookup_never_stops_witness:
  "(''explain the osi model in detail.'', 2) \<in> set (repeated sample_questions_list) \<and>
   (\<exists>q\<in>set sample_questions_list. strip (lower q) = ''explain the osi model in detail.'') \<and>
   (\<exists>orig. next_where (\<lambda>q. strip (lower q) = ''explain the osi model in detail.'')
              sample_questions_list = Inr orig \<and>
            strip (lower orig) = ''explain the osi model in detail.'') \<and>
   (\<exists>rr. repeated_readable sample_questions_list = Inr rr)"
  using lookup_never_stops [of sample_questions_list]
  by (simp add: sample_repeated)


section \<open>The script\<close>

lemma str_join_Cons: "str_join sep (x # xs) = x @ concat (map (\<lambda>r. sep @ r) xs)"
  by (induction xs arbitrary: x) simp_all

lemma joined_questions_eq:
  "joined_questions qs =
     (case take (min 50 (length qs)) qs of
        [] \<Rightarrow> []
      | q # others \<Rightarrow> q @ concat (map (\<lambda>r. CHR 0x0A # r) others))"
proof -
  have "take (min 50 (length qs)) qs = take 50 qs" by (simp add: min_def)
  then show ?thesis
    by (simp add: joined_questions_def str_join_Cons LF_def split: list.splits)
qed

lemma fifty_one_prompt:
  "(case take (min 50 (length fifty_one_questions)) fifty_one_questions of
      [] \<Rightarrow> []
    | q # others \<Rightarrow> q @ concat (map (\<lambda>r. CHR 0x0A # r) others)) =
   concat (replicate 49 (''Define inheritance.'' @ [CHR 0x0A])) @
     ''Explain the OSI model in detail.''"
  by code_simp

lemma fifty_one_length: "length fifty_one_questions = 51"
  by code_simp

text \<open>
  C8: the single prompt sent for the question papers embeds the first
  \<open>min 50 (length qs)\<close> questions, in the order of extraction, each after the first
  preceded by a newline.
\<close>

theorem prompt_embeds_first_fifty:
  "prompts (fst (show_results llm qs rr)) =
     [Pattern_prompt
        (case take (min 50 (length qs)) qs of
           [] \<Rightarrow> []
         | q # others \<Rightarrow> q @ concat (map (\<lambda>r. CHR 0x0A # r) others))] \<and>
   (qs \<noteq> [] \<longrightarrow>
    prompts (fst (analyze_question_papers llm qs)) =
     [Pattern_prompt
        (case take (min 50 (length qs)) qs of
           [] \<Rightarrow> []
         | q # others \<Rightarrow> q @ concat (map (\<lambda>r. CHR 0x0A # r) others))])"
proof -
  have 1: "prompts (fst (show_results llm qs rr)) =
     [Pattern_prompt
        (case take (min 50 (length qs)) qs of
           [] \<Rightarrow> []
         | q # others \<Rightarrow> q @ concat (map (\<lambda>r. CHR 0x0A # r) others))]" for rr
    by (simp only: prompts_show_results joined_questions_eq)
  moreover have "prompts (fst (analyze_question_papers llm qs)) =
     [Pattern_prompt
        (case take (min 50 (length qs)) qs of
           [] \<Rightarrow> []
         | q # others \<Rightarrow> q @ concat (map (\<lambda>r. CHR 0x0A # r) others))]" if "qs \<noteq> []"
    using analyze_nonempty [OF that, of llm] 1 by auto
  ultimately show ?thesis by blast
qed

theorem prompt_embeds_first_fifty_witness:
  "fifty_one_questions \<noteq> [] \<and> length fifty_one_questions = 51 \<and>
   prompts (fst (analyze_question_papers sample_llm fifty_one_questions)) =
     [Pattern_prompt
        (concat (replicate 49 (''Define inheritance.'' @ [CHR 0x0A])) @
         ''Explain the OSI model in detail.'')]"
proof -
  have ne: "fifty_one_questions \<noteq> []" using fifty_one_length by auto
  from prompt_embeds_first_fifty [of sample_llm fifty_one_questions "[]"] ne
  have "prompts (fst (analyze_question_papers sample_llm fifty_one_questions)) =
     [Pattern_prompt
        (case take (min 50 (length fifty_one_questions)) fifty_one_questions of
           [] \<Rightarrow> []
         | q # others \<Rightarrow> q @ concat (map (\<lambda>r. CHR 0x0A # r) others))]"
    by blast
  then have "prompts (fst (analyze_question_papers sample_llm fifty_one_questions)) =
     [Pattern_prompt
        (concat (replicate 49 (''Define inheritance.'' @ [CHR 0x0A])) @
         ''Explain the OSI model in detail.'')]"
    by (simp only: fifty_one_prompt)
  with ne fifty_one_length show ?thesis by blast
qed

lemma key_present_uploads:
  assumes "OPENAI_API_KEY inp = Some k" and "k \<noteq> []"
  shows "\<exists>es. script llm inp = Page_header # File_uploader_papers # File_uploader_syllabus # es"
  using assms
  by (auto simp: script_def check_key_def and_then_def display_def file_uploads_def)

text \<open>
  C9: when the API key is absent from the environment, or empty, the run shows the error
  message and stops: no file uploader, no button and no analysis is reached.
\<close>

theorem missing_key_halts:
  assumes "OPENAI_API_KEY inp = None \<or> OPENAI_API_KEY inp = Some []"
  shows "script llm inp = [St_error key_missing_message, St_stop] \<and>
         File_uploader_papers \<notin> set (script llm inp) \<and>
         File_uploader_syllabus \<notin> set (script llm inp) \<and>
         Button_papers \<notin> set (script llm inp) \<and>
         Button_syllabus \<notin> set (script llm inp) \<and>
         (\<forall>p. Llm_call p \<notin> set (script llm inp))"
proof -
  from assms have "script llm inp = [St_error key_missing_message, St_stop]"
    by (auto simp: script_def check_key_def and_then_def display_def st_stop_def)
  then show ?thesis by simp
qed

theorem missing_key_halts_witness:
  "OPENAI_API_KEY sample_inputs = None \<and>
   script sample_llm sample_inputs = [St_error key_missing_message, St_stop]"
proof -
  have "OPENAI_API_KEY sample_inputs = None" by (simp add: sample_inputs_def)
  with missing_key_halts [of sample_inputs sample_llm] show ?thesis by simp
qed

end
